theory Spec2Isabelle
  imports Main "HOL-Library.Char_ord"
begin

section \<open>The gosql lexer\<close>

text \<open>
  A shallow embedding of the lexer of package \<open>gosql\<close>.  A Go \<open>string\<close> is a sequence
  of bytes and is modelled as a \<open>string\<close> (a list of 8-bit \<open>char\<close>s).  The fields of
  type \<open>uint\<close> are modelled as \<open>nat\<close>: the pointer never exceeds the length of the source,
  the line never exceeds the pointer and the column grows by at most two per byte read,
  and a Go string is shorter than \<open>2 ^ 63\<close> bytes, so no \<open>uint\<close> of a lex pass wraps around.
\<close>

subsection \<open>Run-time panics\<close>

text \<open>
  An index or slice expression out of range panics in Go.  Every function that indexes
  or slices returns an \<open>outcome\<close>: \<open>Panic\<close>, or \<open>Ret\<close> with what the function returns.
\<close>

datatype 'a outcome = Panic | Ret 'a

text \<open>\<open>s[i]\<close>\<close>

definition byte_at :: "string \<Rightarrow> nat \<Rightarrow> char outcome" where
  "byte_at s i = (if i < length s then Ret (s ! i) else Panic)"

text \<open>\<open>s[lo:hi]\<close>\<close>

definition substr :: "string \<Rightarrow> nat \<Rightarrow> nat \<Rightarrow> string outcome" where
  "substr s lo hi = (if lo \<le> hi \<and> hi \<le> length s then Ret (take (hi - lo) (drop lo s)) else Panic)"

subsection \<open>Data model\<close>

record Location =
  Line :: nat
  Col :: nat

datatype TokenKind =
  KeywordKind | SymbolKind | IdentifierKind | StringKind | NumericKind | BoolKind

record Token =
  Value :: string
  Kind :: TokenKind
  Loc :: Location

record cursor =
  pointer :: nat
  loc :: Location

definition SelectKeyword :: string where "SelectKeyword = ''select''"
definition FromKeyword :: string where "FromKeyword = ''from''"
definition AsKeyword :: string where "AsKeyword = ''as''"
definition TableKeyword :: string where "TableKeyword = ''table''"
definition CreateKeyword :: string where "CreateKeyword = ''create''"
definition InsertKeyword :: string where "InsertKeyword = ''insert''"
definition IntoKeyword :: string where "IntoKeyword = ''into''"
definition ValuesKeyword :: string where "ValuesKeyword = ''values''"
definition IntKeyword :: string where "IntKeyword = ''int''"
definition TextKeyword :: string where "TextKeyword = ''text''"
definition WhereKeyword :: string where "WhereKeyword = ''where''"

definition SemicolonSymbol :: string where "SemicolonSymbol = '';''"
definition AsteriskSymbol :: string where "AsteriskSymbol = ''*''"
definition CommaSymbol :: string where "CommaSymbol = '',''"
definition LeftParenSymbol :: string where "LeftParenSymbol = ''(''"
definition RightParenSymbol :: string where "RightParenSymbol = '')''"
definition ConcatSymbol :: string where "ConcatSymbol = ''||''"

text \<open>\<open>Token.equals\<close>: the location takes no part.\<close>

definition equals :: "Token \<Rightarrow> Token \<Rightarrow> bool" where
  "equals t other = (Value t = Value other \<and> Kind t = Kind other)"

text \<open>The zero value \<open>cursor{}\<close>.\<close>

definition cursor0 :: cursor where
  "cursor0 = \<lparr>pointer = 0, loc = \<lparr>Line = 0, Col = 0\<rparr>\<rparr>"

text \<open>\<open>cur.pointer++\<close> and \<open>cur.loc.Col++\<close>\<close>

definition pointer_incr :: "cursor \<Rightarrow> cursor" where
  "pointer_incr cur = cur\<lparr>pointer := pointer cur + 1\<rparr>"

definition col_incr :: "cursor \<Rightarrow> cursor" where
  "col_incr cur = cur\<lparr>loc := (loc cur)\<lparr>Col := Col (loc cur) + 1\<rparr>\<rparr>"

text \<open>
  What a scanner returns: the token (\<open>None\<close> for \<open>nil\<close>), the cursor and the flag.
\<close>

type_synonym scan = "Token option \<times> cursor \<times> bool"

type_synonym lexer = "string \<Rightarrow> cursor \<Rightarrow> scan outcome"

subsection \<open>Bytes\<close>

definition quote :: char where "quote = CHR 0x27"
definition dquote :: char where "dquote = CHR 0x22"
definition newline :: char where "newline = CHR 0x0A"
definition tab :: char where "tab = CHR 0x09"
definition space :: char where "space = CHR '' ''"

definition isDigit :: "char \<Rightarrow> bool" where
  "isDigit c = (c \<ge> CHR ''0'' \<and> c \<le> CHR ''9'')"

definition isAlphabetical :: "char \<Rightarrow> bool" where
  "isAlphabetical c = ((c \<ge> CHR ''A'' \<and> c \<le> CHR ''Z'') \<or> (c \<ge> CHR ''a'' \<and> c \<le> CHR ''z''))"

text \<open>
  \<open>strings.ToLower(string(b))\<close> for a byte \<open>b\<close>: the conversion of a byte to a string
  gives the UTF-8 encoding of the code point \<open>b\<close>, one byte below \<open>0x80\<close> and two bytes from
  there; \<open>ToLower\<close> adds 32 to the upper-case letters of ASCII and of Latin-1
  (\<open>U+00C0\<close> to \<open>U+00DE\<close> without \<open>U+00D7\<close>).
\<close>

definition ToLower_byte :: "char \<Rightarrow> string" where
  "ToLower_byte b =
     (let n = (of_char b :: nat) in
      if n < 128 then [if 65 \<le> n \<and> n \<le> 90 then char_of (n + 32) else b]
      else
        let r = (if (192 \<le> n \<and> n \<le> 214) \<or> (216 \<le> n \<and> n \<le> 222) then n + 32 else n)
        in [char_of (192 + r div 64), char_of (128 + r mod 64)])"

text \<open>
  \<open>strings.ToLower(string(value))\<close> for a byte slice of ASCII bytes, which is all that
  \<open>lexIdentifier\<close> passes: the bytes are kept, the upper-case letters get 32 added.
\<close>

definition ToLower :: "string \<Rightarrow> string" where
  "ToLower s = map (\<lambda>c. if c \<ge> CHR ''A'' \<and> c \<le> CHR ''Z'' then char_of (of_char c + (32::nat)) else c) s"

subsection \<open>longestMatch\<close>

text \<open>
  The inner loop \<open>for i, option := range options\<close>, over the options paired with their
  indices.  \<open>n\<close> is \<open>cur.pointer - ic.pointer\<close>; the slice \<open>option[:n]\<close> panics when \<open>n\<close>
  exceeds the length of the option, and is evaluated before \<open>tooLong\<close>.
\<close>

fun longestMatch_options ::
  "string \<Rightarrow> nat \<Rightarrow> (nat \<times> string) list \<Rightarrow> nat list \<Rightarrow> string \<Rightarrow> (nat list \<times> string) outcome" where
  "longestMatch_options val n [] skipList match = Ret (skipList, match)"
| "longestMatch_options val n ((i, option) # rest) skipList match =
     (if i \<in> set skipList then longestMatch_options val n rest skipList match
      else if option = val then
        longestMatch_options val n rest (skipList @ [i])
          (if length option > length match then option else match)
      else
        (case substr option 0 n of
           Panic \<Rightarrow> Panic
         | Ret pre \<Rightarrow>
             let sharesPrefix = (val = pre);
                 tooLong = (length val > length option)
             in if tooLong \<or> \<not> sharesPrefix
                then longestMatch_options val n rest (skipList @ [i]) match
                else longestMatch_options val n rest skipList match))"

function longestMatch_loop ::
  "string \<Rightarrow> cursor \<Rightarrow> string list \<Rightarrow> cursor \<Rightarrow> string \<Rightarrow> nat list \<Rightarrow> string \<Rightarrow> string outcome" where
  "longestMatch_loop source ic options cur val skipList match =
     (if pointer cur < length source then
        (case byte_at source (pointer cur) of
           Panic \<Rightarrow> Panic
         | Ret b \<Rightarrow>
             let val' = val @ ToLower_byte b;
                 cur' = pointer_incr cur
             in (case longestMatch_options val' (pointer cur' - pointer ic)
                        (enumerate 0 options) skipList match of
                   Panic \<Rightarrow> Panic
                 | Ret (skipList', match') \<Rightarrow>
                     if length skipList' = length options then Ret match'
                     else longestMatch_loop source ic options cur' val' skipList' match'))
      else Ret match)"
  by pat_completeness auto
termination
  by (relation "measure (\<lambda>(source, ic, options, cur, val, skipList, match). length source - pointer cur)")
     (auto simp: pointer_incr_def)

definition longestMatch :: "string \<Rightarrow> cursor \<Rightarrow> string list \<Rightarrow> string outcome" where
  "longestMatch source ic options = longestMatch_loop source ic options ic [] [] []"

subsection \<open>lexNumeric\<close>

text \<open>The code after the loop of \<open>lexNumeric\<close>.\<close>

definition lexNumeric_end :: "string \<Rightarrow> cursor \<Rightarrow> cursor \<Rightarrow> scan outcome" where
  "lexNumeric_end source ic cur =
     (if pointer cur = pointer ic then Ret (None, ic, False)
      else
        (case substr source (pointer ic) (pointer cur) of
           Panic \<Rightarrow> Panic
         | Ret v \<Rightarrow> Ret (Some \<lparr>Value = v, Kind = NumericKind, Loc = loc ic\<rparr>, cur, True)))"

text \<open>
  The loop of \<open>lexNumeric\<close>; a recursive call is the next iteration, after the
  \<open>cur.pointer++\<close> of the loop header.
\<close>

function lexNumeric_loop ::
  "string \<Rightarrow> cursor \<Rightarrow> cursor \<Rightarrow> bool \<Rightarrow> bool \<Rightarrow> scan outcome" where
  "lexNumeric_loop source ic cur0 periodFound expMarkerFound =
     (if pointer cur0 < length source then
        (case byte_at source (pointer cur0) of
           Panic \<Rightarrow> Panic
         | Ret c \<Rightarrow>
             let cur = col_incr cur0;
                 isPeriod = (c = CHR ''.'');
                 isExpMarker = (c = CHR ''e'')
             in
               if pointer cur = pointer ic then
                 (if \<not> isDigit c \<and> \<not> isPeriod then Ret (None, ic, False)
                  else lexNumeric_loop source ic (pointer_incr cur) isPeriod expMarkerFound)
               else if isPeriod then
                 (if periodFound then Ret (None, ic, False)
                  else lexNumeric_loop source ic (pointer_incr cur) True expMarkerFound)
               else if isExpMarker then
                 (if expMarkerFound then Ret (None, ic, False)
                  else if pointer cur = length source - 1 then Ret (None, ic, False)
                  else
                    (case byte_at source (pointer cur + 1) of
                       Panic \<Rightarrow> Panic
                     | Ret cNext \<Rightarrow>
                         if cNext = CHR ''-'' \<or> cNext = CHR ''+''
                         then lexNumeric_loop source ic
                                (pointer_incr (col_incr (pointer_incr cur))) True True
                         else lexNumeric_loop source ic (pointer_incr cur) True True))
               else if \<not> isDigit c then lexNumeric_end source ic cur
               else lexNumeric_loop source ic (pointer_incr cur) periodFound expMarkerFound)
      else lexNumeric_end source ic cur0)"
  by pat_completeness auto
termination
  by (relation "measure (\<lambda>(source, ic, cur0, periodFound, expMarkerFound). length source - pointer cur0)")
     (auto simp: pointer_incr_def col_incr_def)

definition lexNumeric :: lexer where
  "lexNumeric source ic = lexNumeric_loop source ic ic False False"

subsection \<open>lexCharacterDelimited and lexString\<close>

function lexCharacterDelimited_loop ::
  "string \<Rightarrow> cursor \<Rightarrow> char \<Rightarrow> cursor \<Rightarrow> string \<Rightarrow> scan outcome" where
  "lexCharacterDelimited_loop source ic delimiter cur val =
     (if pointer cur < length source then
        (case byte_at source (pointer cur) of
           Panic \<Rightarrow> Panic
         | Ret c \<Rightarrow>
             if c = delimiter then
               (if pointer cur + 1 \<ge> length source then
                  Ret (Some \<lparr>Value = val, Kind = StringKind, Loc = loc ic\<rparr>, cur, True)
                else
                  (case byte_at source (pointer cur + 1) of
                     Panic \<Rightarrow> Panic
                   | Ret d \<Rightarrow>
                       if d \<noteq> delimiter then
                         Ret (Some \<lparr>Value = val, Kind = StringKind, Loc = loc ic\<rparr>, cur, True)
                       else
                         lexCharacterDelimited_loop source ic delimiter
                           (pointer_incr (col_incr (col_incr (pointer_incr cur))))
                           ((val @ [delimiter]) @ [c])))
             else
               lexCharacterDelimited_loop source ic delimiter
                 (pointer_incr (col_incr cur)) (val @ [c]))
      else Ret (None, ic, False))"
  by pat_completeness auto
termination
  by (relation "measure (\<lambda>(source, ic, delimiter, cur, val). length source - pointer cur)")
     (auto simp: pointer_incr_def col_incr_def)

definition lexCharacterDelimited :: "string \<Rightarrow> cursor \<Rightarrow> char \<Rightarrow> scan outcome" where
  "lexCharacterDelimited source ic delimiter =
     (case substr source (pointer ic) (length source) of
        Panic \<Rightarrow> Panic
      | Ret rest \<Rightarrow>
          if length rest = 0 then Ret (None, ic, False)
          else
            (case byte_at source (pointer ic) of
               Panic \<Rightarrow> Panic
             | Ret c \<Rightarrow>
                 if c \<noteq> delimiter then Ret (None, ic, False)
                 else lexCharacterDelimited_loop source ic delimiter
                        (pointer_incr (col_incr ic)) []))"

definition lexString :: lexer where
  "lexString source ic = lexCharacterDelimited source ic quote"

subsection \<open>lexSymbol and lexKeyword\<close>

definition symbols :: "string list" where
  "symbols = [CommaSymbol, LeftParenSymbol, RightParenSymbol, SemicolonSymbol, AsteriskSymbol]"

definition keywords_list :: "string list" where
  "keywords_list = [SelectKeyword, InsertKeyword, ValuesKeyword, TableKeyword, CreateKeyword,
               WhereKeyword, FromKeyword, IntoKeyword, TextKeyword]"

text \<open>
  The end of \<open>lexSymbol\<close> and of \<open>lexKeyword\<close>: no match, or a token of the matched
  option and the cursor moved by its length.
\<close>

definition match_token :: "TokenKind \<Rightarrow> cursor \<Rightarrow> cursor \<Rightarrow> string \<Rightarrow> scan" where
  "match_token k ic cur match =
     (if match = [] then (None, ic, False)
      else
        (Some \<lparr>Value = match, Kind = k, Loc = loc ic\<rparr>,
         cur\<lparr>pointer := pointer ic + length match,
             loc := (loc cur)\<lparr>Col := Col (loc ic) + length match\<rparr>\<rparr>,
         True))"

definition lexSymbol :: lexer where
  "lexSymbol source ic =
     (case byte_at source (pointer ic) of
        Panic \<Rightarrow> Panic
      | Ret c \<Rightarrow>
          let cur = col_incr (pointer_incr ic) in
          if c = newline then
            Ret (None, cur\<lparr>loc := \<lparr>Line = Line (loc cur) + 1, Col = 0\<rparr>\<rparr>, True)
          else if c = tab then Ret (None, cur, True)
          else if c = space then Ret (None, cur, True)
          else
            (case longestMatch source ic symbols of
               Panic \<Rightarrow> Panic
             | Ret match \<Rightarrow> Ret (match_token SymbolKind ic cur match)))"

definition lexKeyword :: lexer where
  "lexKeyword source ic =
     (case longestMatch source ic keywords_list of
        Panic \<Rightarrow> Panic
      | Ret match \<Rightarrow> Ret (match_token KeywordKind ic ic match))"

subsection \<open>lexIdentifier\<close>

text \<open>The code after the loop of \<open>lexIdentifier\<close>.\<close>

definition lexIdentifier_end :: "cursor \<Rightarrow> cursor \<Rightarrow> string \<Rightarrow> scan outcome" where
  "lexIdentifier_end ic cur val =
     (if length val = 0 then Ret (None, ic, False)
      else Ret (Some \<lparr>Value = ToLower val, Kind = IdentifierKind, Loc = loc ic\<rparr>, cur, True))"

function lexIdentifier_loop :: "string \<Rightarrow> cursor \<Rightarrow> cursor \<Rightarrow> string \<Rightarrow> scan outcome" where
  "lexIdentifier_loop source ic cur val =
     (if pointer cur < length source then
        (case byte_at source (pointer cur) of
           Panic \<Rightarrow> Panic
         | Ret c \<Rightarrow>
             if isAlphabetical c \<or> isDigit c \<or> c = CHR ''$'' \<or> c = CHR ''_''
             then lexIdentifier_loop source ic (pointer_incr (col_incr cur)) (val @ [c])
             else lexIdentifier_end ic cur val)
      else lexIdentifier_end ic cur val)"
  by pat_completeness auto
termination
  by (relation "measure (\<lambda>(source, ic, cur, val). length source - pointer cur)")
     (auto simp: pointer_incr_def col_incr_def)

definition lexIdentifier :: lexer where
  "lexIdentifier source ic =
     (case lexCharacterDelimited source ic dquote of
        Panic \<Rightarrow> Panic
      | Ret (token, newCursor, ok) \<Rightarrow>
          if ok then Ret (token, newCursor, True)
          else
            (case byte_at source (pointer ic) of
               Panic \<Rightarrow> Panic
             | Ret c \<Rightarrow>
                 if \<not> isAlphabetical c then Ret (None, ic, False)
                 else lexIdentifier_loop source ic (col_incr (pointer_incr ic)) [c]))"

subsection \<open>The driver\<close>

definition lexers :: "lexer list" where
  "lexers = [lexKeyword, lexSymbol, lexString, lexNumeric, lexIdentifier]"

text \<open>
  The loop \<open>for _, l := range lexers\<close>: the result of the first scanner whose flag is
  set, or \<open>None\<close> when the list is exhausted.
\<close>

fun try_lexers :: "lexer list \<Rightarrow> string \<Rightarrow> cursor \<Rightarrow> (Token option \<times> cursor) option outcome" where
  "try_lexers [] source cur = Ret None"
| "try_lexers (l # ls) source cur =
     (case l source cur of
        Panic \<Rightarrow> Panic
      | Ret (token, newCursor, ok) \<Rightarrow>
          if ok then Ret (Some (token, newCursor)) else try_lexers ls source cur)"

text \<open>
  The error of \<open>lex\<close>: the arguments of
  \<open>fmt.Errorf("Unable to lex token%s, at %d %d", hint, cur.loc.Line, cur.loc.Col)\<close>.
\<close>

datatype error = Errorf (hint: string) (line: nat) (col: nat)

definition lex_error :: "Token list \<Rightarrow> cursor \<Rightarrow> error" where
  "lex_error tokens cur =
     Errorf (if length tokens > 0 then '' after '' @ Value (last tokens) else [])
            (Line (loc cur)) (Col (loc cur))"

text \<open>
  The loop labelled \<open>lex\<close>.  Its termination rests on what the scanners return, so it is
  a partial function: \<open>None\<close> is a loop that never ends.
\<close>

partial_function (option) lex_loop ::
  "string \<Rightarrow> cursor \<Rightarrow> Token list \<Rightarrow> (error + Token list) outcome option" where
  "lex_loop source cur tokens =
     (if pointer cur < length source then
        (case try_lexers lexers source cur of
           Panic \<Rightarrow> Some Panic
         | Ret None \<Rightarrow> Some (Ret (Inl (lex_error tokens cur)))
         | Ret (Some (token, newCursor)) \<Rightarrow>
             lex_loop source newCursor
               (case token of None \<Rightarrow> tokens | Some t \<Rightarrow> tokens @ [t]))
      else Some (Ret (Inr tokens)))"

declare lex_loop.simps [code]

definition lex :: "string \<Rightarrow> (error + Token list) outcome option" where
  "lex source = lex_loop source cursor0 []"

subsection \<open>The properties the lexer is checked against\<close>

definition isWhitespace :: "char \<Rightarrow> bool" where
  "isWhitespace c = (c = newline \<or> c = tab \<or> c = space)"

text \<open>
  \<open>reinserted s vs\<close>: the string \<open>s\<close> is the values \<open>vs\<close>, in order, with
  whitespace bytes put before, between and after them.
\<close>

inductive reinserted :: "string \<Rightarrow> string list \<Rightarrow> bool" where
  nothing: "reinserted [] []"
| whitespace: "isWhitespace c \<Longrightarrow> reinserted s vs \<Longrightarrow> reinserted (c # s) vs"
| token: "reinserted s vs \<Longrightarrow> reinserted (v @ s) (v # vs)"

text \<open>
  The position of the byte at offset \<open>p\<close> of a source: its line, counted from 1 or
  from 0, and its column, counted from 0.
\<close>

definition line0_of :: "string \<Rightarrow> nat \<Rightarrow> nat" where
  "line0_of source p = length (filter (\<lambda>c. c = newline) (take p source))"

definition line1_of :: "string \<Rightarrow> nat \<Rightarrow> nat" where
  "line1_of source p = 1 + line0_of source p"

definition column0_of :: "string \<Rightarrow> nat \<Rightarrow> nat" where
  "column0_of source p = length (takeWhile (\<lambda>c. c \<noteq> newline) (rev (take p source)))"

text \<open>
  The states of one pass of the driver: the cursor and the tokens at each entry of the
  loop labelled \<open>lex\<close>.
\<close>

inductive pass :: "string \<Rightarrow> cursor \<Rightarrow> Token list \<Rightarrow> bool" for source where
  start: "pass source cursor0 []"
| step: "pass source cur tokens \<Longrightarrow> pointer cur < length source \<Longrightarrow>
         try_lexers lexers source cur = Ret (Some (token, newCursor)) \<Longrightarrow>
         pass source newCursor (case token of None \<Rightarrow> tokens | Some t \<Rightarrow> tokens @ [t])"

section \<open>Properties of the scanners\<close>

lemma pointer_incr_sel [simp]:
  "pointer (pointer_incr c) = pointer c + 1" "loc (pointer_incr c) = loc c"
  by (simp_all add: pointer_incr_def)

lemma col_incr_sel [simp]:
  "pointer (col_incr c) = pointer c"
  "Col (loc (col_incr c)) = Col (loc c) + 1"
  "Line (loc (col_incr c)) = Line (loc c)"
  by (simp_all add: col_incr_def)

lemma byte_at_Ret [simp]: "i < length s \<Longrightarrow> byte_at s i = Ret (s ! i)"
  by (simp add: byte_at_def)

lemma substr_Ret [simp]: "lo \<le> hi \<Longrightarrow> hi \<le> length s \<Longrightarrow> substr s lo hi = Ret (take (hi - lo) (drop lo s))"
  by (simp add: substr_def)

declare lexNumeric_loop.simps [simp del]

definition numeric_byte :: "char \<Rightarrow> bool" where
  "numeric_byte c = (isDigit c \<or> c = CHR ''.'' \<or> c = CHR ''e'' \<or> c = CHR ''-'' \<or> c = CHR ''+'')"

definition numeric_post :: "string \<Rightarrow> cursor \<Rightarrow> scan outcome \<Rightarrow> bool" where
  "numeric_post source ic r =
     (\<exists>tok cur ok. r = Ret (tok, cur, ok) \<and>
        (if ok then pointer ic < pointer cur \<and> pointer cur \<le> length source
                 \<and> tok = Some \<lparr>Value = take (pointer cur - pointer ic) (drop (pointer ic) source),
                               Kind = NumericKind, Loc = loc ic\<rparr>
                 \<and> (\<forall>i. pointer ic \<le> i \<and> i < pointer cur \<longrightarrow> numeric_byte (source ! i))
         else tok = None \<and> cur = ic))"

lemma numeric_post_fail [simp]: "numeric_post source ic (Ret (None, ic, False))"
  by (auto simp add: numeric_post_def)

lemma lexNumeric_end_post:
  assumes "pointer ic \<le> pointer cur" "pointer cur \<le> length source"
    "\<forall>i. pointer ic \<le> i \<and> i < pointer cur \<longrightarrow> numeric_byte (source ! i)"
  shows "numeric_post source ic (lexNumeric_end source ic cur)"
  using assms by (auto simp: lexNumeric_end_def numeric_post_def)

lemma lexNumeric_loop_post:
  assumes "pointer ic \<le> pointer cur0" "pointer cur0 \<le> length source"
    "\<forall>i. pointer ic \<le> i \<and> i < pointer cur0 \<longrightarrow> numeric_byte (source ! i)"
  shows "numeric_post source ic (lexNumeric_loop source ic cur0 pf ef)"
  using assms
proof (induction "length source - pointer cur0" arbitrary: cur0 pf ef rule: less_induct)
  case less
  show ?case
  proof (cases "pointer cur0 < length source")
    case False
    then show ?thesis
      using less.prems by (subst lexNumeric_loop.simps) (simp add: lexNumeric_end_post)
  next
    case True
    let ?c = "source ! pointer cur0"
    have IH1: "numeric_post source ic (lexNumeric_loop source ic (pointer_incr (col_incr cur0)) pf' ef')"
      if "numeric_byte ?c" for pf' ef'
      using that less.prems True by (intro less.hyps) (auto simp: less_Suc_eq)
    have IH2: "numeric_post source ic
        (lexNumeric_loop source ic (pointer_incr (col_incr (pointer_incr (col_incr cur0)))) pf' ef')"
      if "numeric_byte ?c" "Suc (pointer cur0) < length source"
         "numeric_byte (source ! Suc (pointer cur0))" for pf' ef'
      using that less.prems True by (intro less.hyps) (auto simp: less_Suc_eq)
    have End: "numeric_post source ic (lexNumeric_end source ic (col_incr cur0))"
      using less.prems by (intro lexNumeric_end_post) auto
    consider (A1) "pointer cur0 = pointer ic" "\<not> isDigit ?c" "?c \<noteq> CHR ''.''"
      | (A2) "pointer cur0 = pointer ic" "isDigit ?c \<or> ?c = CHR ''.''"
      | (B1) "pointer cur0 \<noteq> pointer ic" "?c = CHR ''.''" "pf"
      | (B2) "pointer cur0 \<noteq> pointer ic" "?c = CHR ''.''" "\<not> pf"
      | (C1) "pointer cur0 \<noteq> pointer ic" "?c = CHR ''e''" "ef"
      | (C2) "pointer cur0 \<noteq> pointer ic" "?c = CHR ''e''" "\<not> ef" "pointer cur0 = length source - 1"
      | (C3) "pointer cur0 \<noteq> pointer ic" "?c = CHR ''e''" "\<not> ef" "pointer cur0 \<noteq> length source - 1"
             "source ! Suc (pointer cur0) = CHR ''-'' \<or> source ! Suc (pointer cur0) = CHR ''+''"
      | (C4) "pointer cur0 \<noteq> pointer ic" "?c = CHR ''e''" "\<not> ef" "pointer cur0 \<noteq> length source - 1"
             "source ! Suc (pointer cur0) \<noteq> CHR ''-''" "source ! Suc (pointer cur0) \<noteq> CHR ''+''"
      | (D1) "pointer cur0 \<noteq> pointer ic" "?c \<noteq> CHR ''.''" "?c \<noteq> CHR ''e''" "\<not> isDigit ?c"
      | (D2) "pointer cur0 \<noteq> pointer ic" "?c \<noteq> CHR ''.''" "?c \<noteq> CHR ''e''" "isDigit ?c"
      by blast
    then show ?thesis
    proof cases
      case A1
      with True show ?thesis
        by (subst lexNumeric_loop.simps) (simp add: Let_def)
    next
      case A2
      then have "numeric_byte ?c" by (auto simp: numeric_byte_def)
      with A2 True show ?thesis
        by (subst lexNumeric_loop.simps) (auto simp add: Let_def IH1)
    next
      case B1
      with True show ?thesis
        by (subst lexNumeric_loop.simps) (simp add: Let_def)
    next
      case B2
      then have "numeric_byte ?c" by (auto simp: numeric_byte_def)
      with B2 True show ?thesis
        by (subst lexNumeric_loop.simps) (simp add: Let_def IH1)
    next
      case C1
      with True show ?thesis
        by (subst lexNumeric_loop.simps) (simp add: Let_def)
    next
      case C2
      with True show ?thesis
        by (subst lexNumeric_loop.simps) (simp add: Let_def)
    next
      case C3
      then have nb: "numeric_byte ?c" "numeric_byte (source ! Suc (pointer cur0))"
        by (auto simp: numeric_byte_def)
      have lt: "Suc (pointer cur0) < length source" using C3 True by arith
      show ?thesis
        using C3 lt True by (subst lexNumeric_loop.simps) (auto simp add: Let_def IH2[OF nb(1) lt nb(2)])
    next
      case C4
      then have nb: "numeric_byte ?c" by (auto simp: numeric_byte_def)
      have lt: "Suc (pointer cur0) < length source" using C4 True by arith
      show ?thesis
        using C4 lt True by (subst lexNumeric_loop.simps) (simp add: Let_def IH1[OF nb])
    next
      case D1
      with True show ?thesis
        by (subst lexNumeric_loop.simps) (simp add: Let_def End)
    next
      case D2
      then have "numeric_byte ?c" by (auto simp: numeric_byte_def)
      with D2 True show ?thesis
        by (subst lexNumeric_loop.simps) (simp add: Let_def IH1)
    qed
  qed
qed


declare lexCharacterDelimited_loop.simps [simp del]
declare lexIdentifier_loop.simps [simp del]
declare longestMatch_loop.simps [simp del]

definition delimited_post :: "string \<Rightarrow> cursor \<Rightarrow> char \<Rightarrow> scan outcome \<Rightarrow> bool" where
  "delimited_post source ic d r =
     (\<exists>tok cur ok. r = Ret (tok, cur, ok) \<and>
        (if ok then pointer ic < pointer cur \<and> pointer cur < length source
                 \<and> source ! pointer cur = d
                 \<and> (\<exists>v. tok = Some \<lparr>Value = v, Kind = StringKind, Loc = loc ic\<rparr>)
         else tok = None \<and> cur = ic))"

lemma delimited_post_fail [simp]: "delimited_post source ic d (Ret (None, ic, False))"
  by (auto simp: delimited_post_def)

lemma lexCharacterDelimited_loop_post:
  assumes "pointer ic < pointer cur" "pointer cur \<le> length source"
  shows "delimited_post source ic d (lexCharacterDelimited_loop source ic d cur val)"
  using assms
proof (induction "length source - pointer cur" arbitrary: cur val rule: less_induct)
  case less
  show ?case
  proof (cases "pointer cur < length source")
    case False
    then show ?thesis
      by (subst lexCharacterDelimited_loop.simps) simp
  next
    case True
    let ?c = "source ! pointer cur"
    consider (close_end) "?c = d" "length source \<le> pointer cur + 1"
      | (close) "?c = d" "pointer cur + 1 < length source" "source ! (pointer cur + 1) \<noteq> d"
      | (doubled) "?c = d" "pointer cur + 1 < length source" "source ! (pointer cur + 1) = d"
      | (other) "?c \<noteq> d"
      by linarith
    then show ?thesis
    proof cases
      case close_end
      with True less.prems show ?thesis
        by (subst lexCharacterDelimited_loop.simps) (auto simp: delimited_post_def)
    next
      case close
      with True less.prems show ?thesis
        by (subst lexCharacterDelimited_loop.simps) (auto simp: delimited_post_def)
    next
      case doubled
      have "delimited_post source ic d (lexCharacterDelimited_loop source ic d
              (pointer_incr (col_incr (col_incr (pointer_incr cur)))) ((val @ [d]) @ [d]))"
        using doubled less.prems by (intro less.hyps) auto
      with True doubled show ?thesis
        by (subst lexCharacterDelimited_loop.simps) simp
    next
      case other
      have "delimited_post source ic d (lexCharacterDelimited_loop source ic d
              (pointer_incr (col_incr cur)) (val @ [?c]))"
        using True less.prems by (intro less.hyps) auto
      with True other show ?thesis
        by (subst lexCharacterDelimited_loop.simps) simp
    qed
  qed
qed

lemma lexCharacterDelimited_post:
  assumes "pointer ic \<le> length source"
  shows "delimited_post source ic d (lexCharacterDelimited source ic d)"
proof (cases "pointer ic < length source \<and> source ! pointer ic = d")
  case True
  then show ?thesis
    using lexCharacterDelimited_loop_post[of ic "pointer_incr (col_incr ic)" source d "[]"]
    by (simp add: lexCharacterDelimited_def)
next
  case False
  then show ?thesis using assms
    by (cases "pointer ic < length source") (auto simp: lexCharacterDelimited_def)
qed

definition ident_byte :: "char \<Rightarrow> bool" where
  "ident_byte c = (isAlphabetical c \<or> isDigit c \<or> c = CHR ''$'' \<or> c = CHR ''_'')"

definition identifier_post :: "string \<Rightarrow> cursor \<Rightarrow> scan outcome \<Rightarrow> bool" where
  "identifier_post source ic r =
     (\<exists>tok cur ok. r = Ret (tok, cur, ok) \<and>
        (if ok then pointer ic < pointer cur \<and> pointer cur \<le> length source
                 \<and> tok = Some \<lparr>Value = ToLower (take (pointer cur - pointer ic) (drop (pointer ic) source)),
                               Kind = IdentifierKind, Loc = loc ic\<rparr>
                 \<and> Col (loc cur) = Col (loc ic) + (pointer cur - pointer ic)
                 \<and> Line (loc cur) = Line (loc ic)
                 \<and> (\<forall>i. pointer ic \<le> i \<and> i < pointer cur \<longrightarrow> ident_byte (source ! i))
         else tok = None \<and> cur = ic))"

lemma take_Suc_drop: "p + n < length s \<Longrightarrow> take (Suc n) (drop p s) = take n (drop p s) @ [s ! (p + n)]"
  by (simp add: take_Suc_conv_app_nth)

lemma lexIdentifier_loop_post:
  assumes "pointer ic < pointer cur" "pointer cur \<le> length source"
    "val = take (pointer cur - pointer ic) (drop (pointer ic) source)"
    "Col (loc cur) = Col (loc ic) + (pointer cur - pointer ic)"
    "Line (loc cur) = Line (loc ic)"
    "\<forall>i. pointer ic \<le> i \<and> i < pointer cur \<longrightarrow> ident_byte (source ! i)"
  shows "identifier_post source ic (lexIdentifier_loop source ic cur val)"
  using assms
proof (induction "length source - pointer cur" arbitrary: cur val rule: less_induct)
  case less
  have End: "identifier_post source ic (lexIdentifier_end ic cur val)"
    using less.prems by (auto simp: lexIdentifier_end_def identifier_post_def)
  show ?case
  proof (cases "pointer cur < length source \<and> ident_byte (source ! pointer cur)")
    case False
    then show ?thesis
      using End by (subst lexIdentifier_loop.simps) (auto simp: ident_byte_def)
  next
    case True
    let ?c = "source ! pointer cur"
    have "pointer ic + (pointer cur - pointer ic) = pointer cur" using less.prems by simp
    then have v: "val @ [?c] = take (Suc (pointer cur) - pointer ic) (drop (pointer ic) source)"
      using take_Suc_drop[of "pointer ic" "pointer cur - pointer ic" source] True less.prems
      by (simp add: Suc_diff_le)
    have "identifier_post source ic (lexIdentifier_loop source ic (pointer_incr (col_incr cur)) (val @ [?c]))"
      using True less.prems v by (intro less.hyps) (auto simp: less_Suc_eq)
    with True show ?thesis
      by (subst lexIdentifier_loop.simps) (auto simp: ident_byte_def)
  qed
qed


lemma lexIdentifier_post:
  assumes "pointer ic < length source"
  shows "delimited_post source ic dquote (lexIdentifier source ic)
       \<or> identifier_post source ic (lexIdentifier source ic)"
proof -
  have d: "delimited_post source ic dquote (lexCharacterDelimited source ic dquote)"
    using assms by (intro lexCharacterDelimited_post) simp
  then obtain tok cur ok where r: "lexCharacterDelimited source ic dquote = Ret (tok, cur, ok)"
    by (auto simp: delimited_post_def)
  show ?thesis
  proof (cases ok)
    case True
    with r d show ?thesis by (simp add: lexIdentifier_def)
  next
    case False
    show ?thesis
    proof (cases "isAlphabetical (source ! pointer ic)")
      case False
      with \<open>\<not> ok\<close> r assms show ?thesis by (simp add: lexIdentifier_def)
    next
      case True
      have "identifier_post source ic
              (lexIdentifier_loop source ic (col_incr (pointer_incr ic)) [source ! pointer ic])"
        using assms True
        by (intro lexIdentifier_loop_post)
           (auto simp: ident_byte_def take_Suc_conv_app_nth less_Suc_eq col_incr_def pointer_incr_def)
      with \<open>\<not> ok\<close> r assms True show ?thesis by (simp add: lexIdentifier_def)
    qed
  qed
qed

lemma longestMatch_options_no_panic:
  assumes "\<forall>(i, opt) \<in> set ps. i \<notin> set skipList \<longrightarrow> n \<le> length opt"
  shows "longestMatch_options val n ps skipList match \<noteq> Panic"
  using assms
proof (induction ps arbitrary: skipList match val)
  case Nil
  then show ?case by simp
next
  case (Cons a ps)
  obtain i opt where a: "a = (i, opt)" by (cases a)
  have rest1: "longestMatch_options v n ps skipList m \<noteq> Panic" for m v
    using Cons.prems by (intro Cons.IH) auto
  have rest2: "longestMatch_options v n ps (skipList @ [i]) m \<noteq> Panic" for m v
    using Cons.prems by (intro Cons.IH) auto
  show ?case
  proof (cases "i \<in> set skipList")
    case True
    then show ?thesis by (simp add: a rest1)
  next
    case False
    with Cons.prems have "n \<le> length opt" by (simp add: a)
    with False show ?thesis by (simp add: a rest1 rest2 Let_def)
  qed
qed

lemma longestMatch_options_result:
  assumes "longestMatch_options val n ps skipList match = Ret (skipList', match')"
  shows "set skipList \<subseteq> set skipList'
       \<and> (match' = match \<or> match' = val \<and> val \<in> snd ` set ps)
       \<and> (\<forall>(i, opt) \<in> set ps. i \<notin> set skipList' \<longrightarrow> n < length opt)"
  using assms
proof (induction ps arbitrary: skipList match)
  case Nil
  then show ?case by simp
next
  case (Cons a ps)
  obtain i opt where a: "a = (i, opt)" by (cases a)
  consider (skipped) "i \<in> set skipList"
    | (exact) "i \<notin> set skipList" "opt = val"
    | (panic) "i \<notin> set skipList" "opt \<noteq> val" "n > length opt"
    | (dropped) "i \<notin> set skipList" "opt \<noteq> val" "n \<le> length opt"
                "length val > length opt \<or> val \<noteq> take n opt"
    | (kept) "i \<notin> set skipList" "opt \<noteq> val" "n \<le> length opt"
             "length val \<le> length opt" "val = take n opt"
    by fastforce
  then show ?case
  proof cases
    case skipped
    with Cons.prems have "longestMatch_options val n ps skipList match = Ret (skipList', match')"
      by (simp add: a)
    from Cons.IH[OF this] skipped show ?thesis by (auto simp: a)
  next
    case exact
    with Cons.prems have "longestMatch_options val n ps (skipList @ [i])
        (if length val > length match then val else match) = Ret (skipList', match')"
      by (simp add: a split del: if_split)
    from Cons.IH[OF this] exact show ?thesis by (auto simp: a split: if_splits)
  next
    case panic
    with Cons.prems show ?thesis by (simp add: a substr_def)
  next
    case dropped
    with Cons.prems have "longestMatch_options val n ps (skipList @ [i]) match = Ret (skipList', match')"
      by (auto simp add: a Let_def)
    from Cons.IH[OF this] dropped show ?thesis by (auto simp: a)
  next
    case kept
    with Cons.prems have "longestMatch_options val n ps skipList match = Ret (skipList', match')"
      by (auto simp add: a Let_def)
    from Cons.IH[OF this] have IH: "set skipList \<subseteq> set skipList'"
       "match' = match \<or> match' = val \<and> val \<in> snd ` set ps"
       "\<forall>(i, opt) \<in> set ps. i \<notin> set skipList' \<longrightarrow> n < length opt" by auto
    have "n < length opt"
    proof (rule ccontr)
      assume "\<not> n < length opt"
      then have "take n opt = opt" by simp
      with kept show False by simp
    qed
    with IH show ?thesis by (auto simp: a)
  qed
qed


definition lowered :: "string \<Rightarrow> string" where
  "lowered s = concat (map ToLower_byte s)"

definition match_post :: "string \<Rightarrow> cursor \<Rightarrow> string list \<Rightarrow> string outcome \<Rightarrow> bool" where
  "match_post source ic options r =
     (\<exists>m. r = Ret m \<and>
        (m = [] \<or> m \<in> set options \<and>
           (\<exists>k. pointer ic + k \<le> length source \<and> m = lowered (take k (drop (pointer ic) source)))))"

lemma snd_enumerate: "snd ` set (enumerate k xs) = set xs"
  by (induction xs arbitrary: k) auto

lemma longestMatch_loop_post:
  assumes "pointer ic \<le> pointer cur" "pointer cur \<le> length source"
    "val = lowered (take (pointer cur - pointer ic) (drop (pointer ic) source))"
    "\<forall>(i, opt) \<in> set (enumerate 0 options). i \<notin> set skipList \<longrightarrow> pointer cur - pointer ic < length opt"
    "match = [] \<or> match \<in> set options \<and>
       (\<exists>k. pointer ic + k \<le> length source \<and> match = lowered (take k (drop (pointer ic) source)))"
  shows "match_post source ic options (longestMatch_loop source ic options cur val skipList match)"
  using assms
proof (induction "length source - pointer cur" arbitrary: cur val skipList match rule: less_induct)
  case less
  show ?case
  proof (cases "pointer cur < length source")
    case False
    then show ?thesis
      using less.prems(5) by (subst longestMatch_loop.simps) (simp add: match_post_def)
  next
    case True
    let ?n = "pointer cur - pointer ic"
    let ?val = "val @ ToLower_byte (source ! pointer cur)"
    have n: "pointer ic + ?n = pointer cur" "Suc (pointer cur) - pointer ic = Suc ?n"
      using less.prems(1) by auto
    have val: "?val = lowered (take (Suc ?n) (drop (pointer ic) source))"
      using take_Suc_drop[of "pointer ic" ?n source] True less.prems(3) n
      by (simp add: lowered_def)
    have "longestMatch_options ?val (Suc ?n) (enumerate 0 options) skipList match \<noteq> Panic"
      using less.prems(4) by (intro longestMatch_options_no_panic) auto
    then obtain skipList' match' where
      r: "longestMatch_options ?val (Suc ?n) (enumerate 0 options) skipList match = Ret (skipList', match')"
      by (cases "longestMatch_options ?val (Suc ?n) (enumerate 0 options) skipList match") auto
    from longestMatch_options_result[OF r]
    have res: "match' = match \<or> match' = ?val \<and> ?val \<in> set options"
      "\<forall>(i, opt) \<in> set (enumerate 0 options). i \<notin> set skipList' \<longrightarrow> Suc ?n < length opt"
      by (auto simp: snd_enumerate)
    have m': "match' = [] \<or> match' \<in> set options \<and>
       (\<exists>k. pointer ic + k \<le> length source \<and> match' = lowered (take k (drop (pointer ic) source)))"
    proof (cases "match' = match")
      case True
      then show ?thesis using less.prems(5) by simp
    next
      case False
      with res(1) have "match' = ?val" "?val \<in> set options" by auto
      moreover have "pointer ic + Suc ?n \<le> length source" using n \<open>pointer cur < length source\<close> by simp
      ultimately show ?thesis using val by metis
    qed
    show ?thesis
    proof (cases "length skipList' = length options")
      case True
      with \<open>pointer cur < length source\<close> r m' show ?thesis
        by (subst longestMatch_loop.simps) (simp add: n Let_def match_post_def)
    next
      case False
      have "match_post source ic options
              (longestMatch_loop source ic options (pointer_incr cur) ?val skipList' match')"
        using \<open>pointer cur < length source\<close> less.prems(1) val res(2) m' n
        by (intro less.hyps) auto
      with \<open>pointer cur < length source\<close> r False show ?thesis
        by (subst longestMatch_loop.simps) (simp add: n Let_def)
    qed
  qed
qed

lemma set_enumerate_snd: "(i, opt) \<in> set (enumerate k xs) \<Longrightarrow> opt \<in> set xs"
  by (induction xs arbitrary: k) auto

lemma longestMatch_post:
  assumes "pointer ic \<le> length source" "[] \<notin> set options"
  shows "match_post source ic options (longestMatch source ic options)"
proof -
  have ne: "\<forall>(i, opt) \<in> set (enumerate 0 options). i \<notin> set [] \<longrightarrow> pointer ic - pointer ic < length opt"
    using assms(2) set_enumerate_snd[of _ _ 0 options] by fastforce
  have v: "[] = lowered (take (pointer ic - pointer ic) (drop (pointer ic) source))"
    by (simp add: lowered_def)
  show ?thesis
    unfolding longestMatch_def
    by (rule longestMatch_loop_post[OF order_refl assms(1) v ne]) simp
qed


definition ascii :: "char \<Rightarrow> bool" where
  "ascii c = (of_char c < (128::nat))"

lemma ToLower_Nil [simp]: "ToLower [] = []"
  by (simp add: ToLower_def)

lemma ToLower_append [simp]: "ToLower (xs @ ys) = ToLower xs @ ToLower ys"
  by (simp add: ToLower_def)

lemma length_ToLower [simp]: "length (ToLower s) = length s"
  by (simp add: ToLower_def)

lemma ToLower_byte_ascii: "ascii b \<Longrightarrow> ToLower_byte b = ToLower [b]"
  by (auto simp add: ToLower_byte_def ToLower_def ascii_def less_eq_char_def Let_def)

lemma ToLower_byte_not_ascii:
  assumes "\<not> ascii b"
  shows "\<exists>c1 c2. ToLower_byte b = [c1, c2] \<and> \<not> ascii c1"
proof -
  let ?n = "of_char b :: nat"
  let ?r = "if (192 \<le> ?n \<and> ?n \<le> 214) \<or> (216 \<le> ?n \<and> ?n \<le> 222) then ?n + 32 else ?n"
  have "?n < 256" by simp
  then have "?r < 256" by auto
  then have "?r div 64 < 4" by simp
  then have "(192 + ?r div 64) mod 256 = 192 + ?r div 64" by simp
  then have "\<not> ascii (char_of (192 + ?r div 64))" by (simp add: ascii_def)
  with assms show ?thesis
    by (simp add: ToLower_byte_def Let_def ascii_def)
qed

lemma lowered_ascii:
  assumes "lowered s = m" "\<forall>c\<in>set m. ascii c"
  shows "m = ToLower s"
  using assms
proof (induction s arbitrary: m)
  case Nil
  then show ?case by (simp add: lowered_def)
next
  case (Cons b s)
  have m: "m = ToLower_byte b @ lowered s" using Cons.prems(1) by (simp add: lowered_def)
  have "ascii b"
  proof (rule ccontr)
    assume "\<not> ascii b"
    from ToLower_byte_not_ascii[OF this] obtain c1 c2 where "ToLower_byte b = [c1, c2]" "\<not> ascii c1"
      by blast
    with m Cons.prems(2) show False by simp
  qed
  moreover have "lowered s = ToLower s" using Cons.prems(2) m by (intro Cons.IH) auto
  ultimately show ?case using m ToLower_byte_ascii[of b]
    by (simp add: ToLower_def)
qed

lemma newline_ToLower: "newline \<in> set s \<Longrightarrow> newline \<in> set (ToLower s)"
  by (force simp: ToLower_def newline_def less_eq_char_def image_iff)

lemma ToLower_keeps:
  assumes "c \<in> set s" "\<not> (CHR ''A'' \<le> c \<and> c \<le> CHR ''Z'')"
  shows "c \<in> set (ToLower s)"
  using assms by (force simp: ToLower_def image_iff)

lemma longestMatch_ascii:
  assumes "pointer ic \<le> length source" "[] \<notin> set options" "\<forall>m\<in>set options. \<forall>c\<in>set m. ascii c"
  shows "\<exists>m. longestMatch source ic options = Ret m \<and>
           (m = [] \<or> m \<in> set options \<and> pointer ic + length m \<le> length source
                   \<and> m = ToLower (take (length m) (drop (pointer ic) source)))"
proof -
  from longestMatch_post[OF assms(1,2)] obtain m where
    r: "longestMatch source ic options = Ret m" and
    m: "m = [] \<or> m \<in> set options \<and>
           (\<exists>k. pointer ic + k \<le> length source \<and> m = lowered (take k (drop (pointer ic) source)))"
    by (auto simp: match_post_def)
  show ?thesis
  proof (cases "m = []")
    case True
    with r show ?thesis by simp
  next
    case False
    with m obtain k where k: "m \<in> set options" "pointer ic + k \<le> length source"
      "m = lowered (take k (drop (pointer ic) source))" by blast
    with assms(3) have eq: "m = ToLower (take k (drop (pointer ic) source))"
      by (intro lowered_ascii) auto
    then have "length m = k" using k(2) by simp
    with r k eq show ?thesis by auto
  qed
qed


definition step_post :: "string \<Rightarrow> cursor \<Rightarrow> Token option \<Rightarrow> cursor \<Rightarrow> bool" where
  "step_post source cur tok cur' =
     (pointer cur < pointer cur' \<and> pointer cur' \<le> length source \<and>
      (let lexeme = take (pointer cur' - pointer cur) (drop (pointer cur) source) in
       case tok of
         None \<Rightarrow>
           pointer cur' = pointer cur + 1 \<and> isWhitespace (source ! pointer cur) \<and>
           loc cur' = (if source ! pointer cur = newline
                       then \<lparr>Line = Line (loc cur) + 1, Col = 0\<rparr>
                       else \<lparr>Line = Line (loc cur), Col = Col (loc cur) + 1\<rparr>)
       | Some t \<Rightarrow>
           Loc t = loc cur \<and>
           (case Kind t of
              StringKind \<Rightarrow>
                pointer cur' < length source \<and>
                (source ! pointer cur' = quote \<or> source ! pointer cur' = dquote)
            | NumericKind \<Rightarrow> Value t = lexeme \<and> (\<forall>c\<in>set lexeme. numeric_byte c)
            | BoolKind \<Rightarrow> False
            | _ \<Rightarrow>
                Value t = ToLower lexeme \<and> newline \<notin> set lexeme \<and>
                Line (loc cur') = Line (loc cur) \<and>
                Col (loc cur') = Col (loc cur) + length lexeme)))"

definition scanner_post :: "string \<Rightarrow> cursor \<Rightarrow> scan outcome \<Rightarrow> bool" where
  "scanner_post source cur r =
     (\<exists>tok cur' ok. r = Ret (tok, cur', ok) \<and>
        (if ok then step_post source cur tok cur' else tok = None \<and> cur' = cur))"

lemma scanner_post_fail [simp]: "scanner_post source cur (Ret (None, cur, False))"
  by (auto simp: scanner_post_def)

lemma set_take_drop_nth:
  "c \<in> set (take k (drop p s)) \<Longrightarrow> \<exists>i. p \<le> i \<and> i < p + k \<and> i < length s \<and> c = s ! i"
  by (auto simp: in_set_conv_nth) (metis add.commute add_less_cancel_left less_diff_conv nat_le_iff_add)

lemma ident_byte_not_newline: "ident_byte c \<Longrightarrow> c \<noteq> newline"
  by (auto simp: ident_byte_def isAlphabetical_def isDigit_def newline_def)

lemma scanner_postI:
  assumes "r = Ret (tok, cur', ok)" "ok \<Longrightarrow> step_post source cur tok cur'"
    "\<not> ok \<Longrightarrow> tok = None \<and> cur' = cur"
  shows "scanner_post source cur r"
  using assms by (cases ok) (auto simp: scanner_post_def)

lemma step_post_String:
  assumes "pointer cur < pointer cur'" "pointer cur' < length source"
    "source ! pointer cur' = quote \<or> source ! pointer cur' = dquote"
  shows "step_post source cur (Some \<lparr>Value = v, Kind = StringKind, Loc = loc cur\<rparr>) cur'"
  using assms by (simp add: step_post_def)

lemma step_post_Numeric:
  assumes "pointer cur < pointer cur'" "pointer cur' \<le> length source"
    "\<forall>i. pointer cur \<le> i \<and> i < pointer cur' \<longrightarrow> numeric_byte (source ! i)"
  shows "step_post source cur
           (Some \<lparr>Value = take (pointer cur' - pointer cur) (drop (pointer cur) source),
                  Kind = NumericKind, Loc = loc cur\<rparr>) cur'"
  using assms by (auto simp add: step_post_def dest!: set_take_drop_nth)

lemma step_post_Identifier:
  assumes "pointer cur < pointer cur'" "pointer cur' \<le> length source"
    "\<forall>i. pointer cur \<le> i \<and> i < pointer cur' \<longrightarrow> ident_byte (source ! i)"
    "Col (loc cur') = Col (loc cur) + (pointer cur' - pointer cur)"
    "Line (loc cur') = Line (loc cur)"
  shows "step_post source cur
           (Some \<lparr>Value = ToLower (take (pointer cur' - pointer cur) (drop (pointer cur) source)),
                  Kind = IdentifierKind, Loc = loc cur\<rparr>) cur'"
  using assms by (auto simp add: step_post_def dest!: set_take_drop_nth ident_byte_not_newline)

lemma lexString_step:
  assumes "pointer cur < length source"
  shows "scanner_post source cur (lexString source cur)"
proof -
  have "delimited_post source cur quote (lexCharacterDelimited source cur quote)"
    using assms by (intro lexCharacterDelimited_post) simp
  then obtain tok cur' ok where r: "lexString source cur = Ret (tok, cur', ok)"
    and ok: "ok \<Longrightarrow> pointer cur < pointer cur' \<and> pointer cur' < length source
                 \<and> source ! pointer cur' = quote
                 \<and> (\<exists>v. tok = Some \<lparr>Value = v, Kind = StringKind, Loc = loc cur\<rparr>)"
    and nok: "\<not> ok \<Longrightarrow> tok = None \<and> cur' = cur"
    unfolding delimited_post_def lexString_def by (metis (full_types))
  show ?thesis
  proof (rule scanner_postI[OF r])
    assume ok
    from ok[OF this] show "step_post source cur tok cur'"
      by (auto intro: step_post_String)
  qed (rule nok)
qed

lemma lexNumeric_step:
  assumes "pointer cur < length source"
  shows "scanner_post source cur (lexNumeric source cur)"
proof -
  have "numeric_post source cur (lexNumeric source cur)"
    unfolding lexNumeric_def using assms by (intro lexNumeric_loop_post) auto
  then obtain tok cur' ok where r: "lexNumeric source cur = Ret (tok, cur', ok)"
    and ok: "ok \<Longrightarrow> pointer cur < pointer cur' \<and> pointer cur' \<le> length source
                 \<and> tok = Some \<lparr>Value = take (pointer cur' - pointer cur) (drop (pointer cur) source),
                               Kind = NumericKind, Loc = loc cur\<rparr>
                 \<and> (\<forall>i. pointer cur \<le> i \<and> i < pointer cur' \<longrightarrow> numeric_byte (source ! i))"
    and nok: "\<not> ok \<Longrightarrow> tok = None \<and> cur' = cur"
    unfolding numeric_post_def by (metis (full_types))
  show ?thesis
  proof (rule scanner_postI[OF r])
    assume ok
    from ok[OF this] show "step_post source cur tok cur'"
      by (auto intro: step_post_Numeric)
  qed (rule nok)
qed

lemma lexIdentifier_step:
  assumes "pointer cur < length source"
  shows "scanner_post source cur (lexIdentifier source cur)"
  using lexIdentifier_post[OF assms]
proof
  assume "delimited_post source cur dquote (lexIdentifier source cur)"
  then obtain tok cur' ok where r: "lexIdentifier source cur = Ret (tok, cur', ok)"
    and ok: "ok \<Longrightarrow> pointer cur < pointer cur' \<and> pointer cur' < length source
                 \<and> source ! pointer cur' = dquote
                 \<and> (\<exists>v. tok = Some \<lparr>Value = v, Kind = StringKind, Loc = loc cur\<rparr>)"
    and nok: "\<not> ok \<Longrightarrow> tok = None \<and> cur' = cur"
    unfolding delimited_post_def by (metis (full_types))
  show ?thesis
  proof (rule scanner_postI[OF r])
    assume ok
    from ok[OF this] show "step_post source cur tok cur'"
      by (auto intro: step_post_String)
  qed (rule nok)
next
  assume "identifier_post source cur (lexIdentifier source cur)"
  then obtain tok cur' ok where r: "lexIdentifier source cur = Ret (tok, cur', ok)"
    and ok: "ok \<Longrightarrow> pointer cur < pointer cur' \<and> pointer cur' \<le> length source
                 \<and> tok = Some \<lparr>Value = ToLower (take (pointer cur' - pointer cur) (drop (pointer cur) source)),
                               Kind = IdentifierKind, Loc = loc cur\<rparr>
                 \<and> Col (loc cur') = Col (loc cur) + (pointer cur' - pointer cur)
                 \<and> Line (loc cur') = Line (loc cur)
                 \<and> (\<forall>i. pointer cur \<le> i \<and> i < pointer cur' \<longrightarrow> ident_byte (source ! i))"
    and nok: "\<not> ok \<Longrightarrow> tok = None \<and> cur' = cur"
    unfolding identifier_post_def by (metis (full_types))
  show ?thesis
  proof (rule scanner_postI[OF r])
    assume ok
    from ok[OF this] show "step_post source cur tok cur'"
      by (auto intro: step_post_Identifier)
  qed (rule nok)
qed


lemmas option_defs =
  keywords_list_def symbols_def SelectKeyword_def InsertKeyword_def ValuesKeyword_def
  TableKeyword_def CreateKeyword_def WhereKeyword_def FromKeyword_def IntoKeyword_def
  TextKeyword_def CommaSymbol_def LeftParenSymbol_def RightParenSymbol_def SemicolonSymbol_def
  AsteriskSymbol_def

lemma keywords_plain:
  "[] \<notin> set keywords_list"
  "\<forall>m\<in>set keywords_list. \<forall>c\<in>set m. ascii c"
  "\<forall>m\<in>set keywords_list. \<forall>c\<in>set m. c \<noteq> newline \<and> c \<noteq> quote \<and> c \<noteq> dquote"
  by (simp_all add: option_defs ascii_def newline_def quote_def dquote_def)

lemma symbols_plain:
  "[] \<notin> set symbols"
  "\<forall>m\<in>set symbols. \<forall>c\<in>set m. ascii c"
  "\<forall>m\<in>set symbols. \<forall>c\<in>set m. c \<noteq> newline \<and> c \<noteq> quote \<and> c \<noteq> dquote"
  by (simp_all add: option_defs ascii_def newline_def quote_def dquote_def)

lemma step_post_match:
  assumes "m \<noteq> []" "pointer cur + length m \<le> length source"
    "m = ToLower (take (length m) (drop (pointer cur) source))" "newline \<notin> set m"
    "k = KeywordKind \<or> k = SymbolKind"
    "pointer cur' = pointer cur + length m"
    "Line (loc cur') = Line (loc cur)" "Col (loc cur') = Col (loc cur) + length m"
  shows "step_post source cur (Some \<lparr>Value = m, Kind = k, Loc = loc cur\<rparr>) cur'"
proof -
  let ?lexeme = "take (length m) (drop (pointer cur) source)"
  have "newline \<notin> set ?lexeme"
    using assms(3,4) newline_ToLower[of ?lexeme] by auto
  moreover have "length ?lexeme = length m" using assms(2) by simp
  ultimately show ?thesis
    using assms by (auto simp: step_post_def)
qed

lemma match_token_step:
  assumes "pointer ic + length m \<le> length source"
    "m = [] \<or> m = ToLower (take (length m) (drop (pointer ic) source)) \<and> newline \<notin> set m"
    "k = KeywordKind \<or> k = SymbolKind" "Line (loc cur) = Line (loc ic)"
  shows "scanner_post source ic (Ret (match_token k ic cur m))"
proof (cases "m = []")
  case True
  then show ?thesis by (simp add: match_token_def)
next
  case False
  let ?cur' = "cur\<lparr>pointer := pointer ic + length m,
                    loc := (loc cur)\<lparr>Col := Col (loc ic) + length m\<rparr>\<rparr>"
  have "step_post source ic (Some \<lparr>Value = m, Kind = k, Loc = loc ic\<rparr>) ?cur'"
    using False assms by (intro step_post_match) auto
  with False show ?thesis
    by (intro scanner_postI[where ok = True and tok = "Some \<lparr>Value = m, Kind = k, Loc = loc ic\<rparr>"
                             and cur' = ?cur'])
       (simp_all add: match_token_def)
qed

lemma longestMatch_plain:
  assumes "pointer ic \<le> length source" "[] \<notin> set options"
    "\<forall>m\<in>set options. \<forall>c\<in>set m. ascii c"
    "\<forall>m\<in>set options. \<forall>c\<in>set m. c \<noteq> newline \<and> c \<noteq> quote \<and> c \<noteq> dquote"
  shows "\<exists>m. longestMatch source ic options = Ret m \<and> pointer ic + length m \<le> length source \<and>
           (m = [] \<or> m = ToLower (take (length m) (drop (pointer ic) source)) \<and> newline \<notin> set m)"
  using longestMatch_ascii[OF assms(1-3)] assms(1,4) by fastforce

lemma lexKeyword_step:
  assumes "pointer cur < length source"
  shows "scanner_post source cur (lexKeyword source cur)"
proof -
  from longestMatch_plain[OF _ keywords_plain, of cur source] assms
  obtain m where m: "longestMatch source cur keywords_list = Ret m"
    "pointer cur + length m \<le> length source"
    "m = [] \<or> m = ToLower (take (length m) (drop (pointer cur) source)) \<and> newline \<notin> set m"
    by auto
  have "scanner_post source cur (Ret (match_token KeywordKind cur cur m))"
    using m by (intro match_token_step) auto
  with m(1) show ?thesis by (simp add: lexKeyword_def)
qed

lemma whitespace_distinct: "tab \<noteq> newline" "space \<noteq> newline"
  by (simp_all add: tab_def space_def newline_def)

lemma lexSymbol_step:
  assumes "pointer cur < length source"
  shows "scanner_post source cur (lexSymbol source cur)"
proof -
  let ?c = "source ! pointer cur"
  let ?cur = "col_incr (pointer_incr cur)"
  consider (nl) "?c = newline" | (ws) "?c \<noteq> newline" "?c = tab \<or> ?c = space"
    | (sym) "?c \<noteq> newline" "?c \<noteq> tab" "?c \<noteq> space" by blast
  then show ?thesis
  proof cases
    case nl
    let ?cur' = "?cur\<lparr>loc := \<lparr>Line = Line (loc ?cur) + 1, Col = 0\<rparr>\<rparr>"
    have "step_post source cur None ?cur'"
      using assms nl by (simp add: step_post_def isWhitespace_def)
    moreover have "lexSymbol source cur = Ret (None, ?cur', True)"
      using assms nl by (simp add: lexSymbol_def Let_def)
    ultimately show ?thesis by (intro scanner_postI[where ok = True]) auto
  next
    case ws
    have "step_post source cur None ?cur"
      using assms ws by (auto simp add: step_post_def isWhitespace_def col_incr_def pointer_incr_def)
    moreover have "lexSymbol source cur = Ret (None, ?cur, True)"
      using assms ws by (auto simp add: lexSymbol_def Let_def)
    ultimately show ?thesis by (intro scanner_postI[where ok = True]) auto
  next
    case sym
    from longestMatch_plain[OF _ symbols_plain, of cur source] assms
    obtain m where m: "longestMatch source cur symbols = Ret m"
      "pointer cur + length m \<le> length source"
      "m = [] \<or> m = ToLower (take (length m) (drop (pointer cur) source)) \<and> newline \<notin> set m"
      by auto
    have "scanner_post source cur (Ret (match_token SymbolKind cur ?cur m))"
      using m by (intro match_token_step) auto
    with m(1) sym assms show ?thesis by (simp add: lexSymbol_def Let_def)
  qed
qed


lemma scanner_postD:
  "scanner_post source cur r \<Longrightarrow> r = Ret (tok, cur', True) \<Longrightarrow> step_post source cur tok cur'"
  by (auto simp: scanner_post_def)

lemma lexers_step:
  assumes "pointer cur < length source" "l \<in> set lexers"
  shows "scanner_post source cur (l source cur)"
  using assms lexKeyword_step lexSymbol_step lexString_step lexNumeric_step lexIdentifier_step
  by (auto simp: lexers_def)

lemma try_lexers_post:
  assumes "\<forall>l\<in>set ls. scanner_post source cur (l source cur)"
  shows "try_lexers ls source cur = Ret None \<or>
         (\<exists>tok cur'. try_lexers ls source cur = Ret (Some (tok, cur')) \<and> step_post source cur tok cur')"
  using assms
proof (induction ls)
  case Nil
  then show ?case by simp
next
  case (Cons l ls)
  then have "scanner_post source cur (l source cur)" by simp
  then obtain tok cur' ok where r: "l source cur = Ret (tok, cur', ok)"
    and ok: "ok \<Longrightarrow> step_post source cur tok cur'"
    unfolding scanner_post_def by (metis (full_types))
  show ?case
  proof (cases ok)
    case True
    with r ok show ?thesis by simp
  next
    case False
    with r Cons show ?thesis by simp
  qed
qed

lemma driver_step:
  assumes "pointer cur < length source"
  shows "try_lexers lexers source cur = Ret None \<or>
         (\<exists>tok cur'. try_lexers lexers source cur = Ret (Some (tok, cur')) \<and> step_post source cur tok cur')"
  using assms by (intro try_lexers_post) (auto intro: lexers_step)

lemma lex_loop_returns:
  "\<exists>r. lex_loop source cur tokens = Some (Ret r)"
proof (induction "length source - pointer cur" arbitrary: cur tokens rule: less_induct)
  case less
  show ?case
  proof (cases "pointer cur < length source")
    case False
    then show ?thesis by (subst lex_loop.simps) simp
  next
    case True
    from driver_step[OF True] show ?thesis
    proof (elim disjE exE conjE)
      assume "try_lexers lexers source cur = Ret None"
      with True show ?thesis by (subst lex_loop.simps) simp
    next
      fix tok cur'
      assume r: "try_lexers lexers source cur = Ret (Some (tok, cur'))"
        and s: "step_post source cur tok cur'"
      from s have "pointer cur < pointer cur'" by (simp add: step_post_def)
      with True have "length source - pointer cur' < length source - pointer cur" by arith
      from less[OF this] obtain r' where
        "lex_loop source cur' (case tok of None \<Rightarrow> tokens | Some t \<Rightarrow> tokens @ [t]) = Some (Ret r')"
        by blast
      with True r show ?thesis by (subst lex_loop.simps) simp
    qed
  qed
qed

section \<open>Concrete runs\<close>

text \<open>
  C1.  Lexing \<open>'it''s'\<close>: the claim is one \<open>String\<close> token of value \<open>it's\<close>.  The code
  appends the delimiter twice for a doubled quote, so \<open>lexString\<close> returns the value
  \<open>it''s\<close>, and it returns the cursor on the closing quote instead of after it, where no
  scanner matches: \<open>lex\<close> returns an error.
\<close>

theorem lex_doubled_quote:
  "lexString (quote # ''it'' @ [quote, quote] @ ''s'' @ [quote]) cursor0 =
     Ret (Some \<lparr>Value = ''it'' @ [quote, quote] @ ''s'', Kind = StringKind,
                Loc = \<lparr>Line = 0, Col = 0\<rparr>\<rparr>,
          \<lparr>pointer = 6, loc = \<lparr>Line = 0, Col = 6\<rparr>\<rparr>, True)
   \<and> lex (quote # ''it'' @ [quote, quote] @ ''s'' @ [quote]) =
     Some (Ret (Inl (Errorf ('' after it'' @ [quote, quote] @ ''s'') 0 6)))"
  by code_simp

text \<open>
  C2.  Lexing \<open>"Foo"\<close>: the claim is one \<open>Identifier\<close> token of value \<open>Foo\<close>.
  \<open>lexIdentifier\<close> returns the token of the delimited scan as it is, of kind \<open>String\<close>,
  with the cursor on the closing quote, and \<open>lex\<close> returns an error.
\<close>

theorem lexIdentifier_quoted:
  "lexIdentifier (dquote # ''Foo'' @ [dquote]) cursor0 =
     Ret (Some \<lparr>Value = ''Foo'', Kind = StringKind, Loc = \<lparr>Line = 0, Col = 0\<rparr>\<rparr>,
          \<lparr>pointer = 4, loc = \<lparr>Line = 0, Col = 4\<rparr>\<rparr>, True)
   \<and> lex (dquote # ''Foo'' @ [dquote]) = Some (Ret (Inl (Errorf '' after Foo'' 0 4)))"
  by code_simp

text \<open>
  C4.  Lexing \<open>into\<close> gives exactly one \<open>Keyword\<close> token of value \<open>into\<close>.  With both
  \<open>int\<close> and \<open>into\<close> among the options, in either order, \<open>longestMatch\<close> records \<open>int\<close>
  when the buffer equals it, goes on, and returns \<open>into\<close>; on the source \<open>int\<close> it
  returns \<open>int\<close>.
\<close>

theorem lex_into_longest_match:
  "lex ''into'' =
     Some (Ret (Inr [\<lparr>Value = ''into'', Kind = KeywordKind, Loc = \<lparr>Line = 0, Col = 0\<rparr>\<rparr>]))
   \<and> longestMatch ''into'' cursor0 [IntKeyword, IntoKeyword] = Ret ''into''
   \<and> longestMatch ''into'' cursor0 [IntoKeyword, IntKeyword] = Ret ''into''
   \<and> longestMatch ''int'' cursor0 [IntKeyword, IntoKeyword] = Ret ''int''"
  by code_simp


text \<open>
  C6.  Lexing the unterminated \<open>'abc\<close> fails: \<open>lexString\<close> returns no match and the
  cursor it was given, no scanner matches at the opening quote, and \<open>lex\<close> returns the
  error, with the line and column of the opening quote.  After \<open>from\<close> and a space the
  opening quote is at column 5 and the end of input at column 9; the error reports 5.
\<close>

theorem lex_unterminated_string:
  "lexString (quote # ''abc'') cursor0 = Ret (None, cursor0, False)
   \<and> try_lexers lexers (quote # ''abc'') cursor0 = Ret None
   \<and> lex (quote # ''abc'') = Some (Ret (Inl (Errorf [] 0 0)))
   \<and> lex (''from '' @ quote # ''abc'') = Some (Ret (Inl (Errorf '' after from'' 0 5)))"
  by code_simp

text \<open>
  C8.  The claim is that a successful \<open>lexNumeric\<close> returns a column equal to the
  starting column plus the number of characters consumed.  On \<open>1\<close> followed by a space
  it consumes one byte and returns column 2: the column is incremented at the top of the
  iteration that meets the byte ending the literal.  So \<open>lex\<close> on \<open>1,2\<close> places the
  comma, the byte at column 1, at column 2.
\<close>

theorem lexNumeric_column:
  "lexNumeric ''1 '' cursor0 =
     Ret (Some \<lparr>Value = ''1'', Kind = NumericKind, Loc = \<lparr>Line = 0, Col = 0\<rparr>\<rparr>,
          \<lparr>pointer = 1, loc = \<lparr>Line = 0, Col = 2\<rparr>\<rparr>, True)
   \<and> lex ''1,2'' =
     Some (Ret (Inr [\<lparr>Value = ''1'', Kind = NumericKind, Loc = \<lparr>Line = 0, Col = 0\<rparr>\<rparr>,
                     \<lparr>Value = '','', Kind = SymbolKind, Loc = \<lparr>Line = 0, Col = 2\<rparr>\<rparr>,
                     \<lparr>Value = ''2'', Kind = NumericKind, Loc = \<lparr>Line = 0, Col = 3\<rparr>\<rparr>]))"
  by code_simp


section \<open>Progress, termination and bounds\<close>

text \<open>
  C9.  At a cursor inside the source, every scanner of the driver that reports success
  returns a cursor whose pointer is strictly greater, and not beyond the end of the
  source; so does the first successful scanner that the driver takes (the whitespace path
  of \<open>lexSymbol\<close> included), and a scanner that fails leaves the driver's cursor as it
  was.  Hence the loop of \<open>lex\<close> ends on every source: \<open>lex_loop\<close> and \<open>lex\<close> return a
  value.
\<close>

theorem lex_progress:
  "(\<forall>l\<in>set lexers. \<forall>cur tok cur'. pointer cur < length source \<longrightarrow>
        l source cur = Ret (tok, cur', True) \<longrightarrow>
        pointer cur < pointer cur' \<and> pointer cur' \<le> length source)
   \<and> (\<forall>cur tok cur'. pointer cur < length source \<longrightarrow>
        try_lexers lexers source cur = Ret (Some (tok, cur')) \<longrightarrow>
        pointer cur < pointer cur' \<and> pointer cur' \<le> length source)
   \<and> (\<forall>cur tokens. \<exists>r. lex_loop source cur tokens = Some r)
   \<and> (\<exists>r. lex source = Some r)"
proof (intro conjI ballI allI impI)
  fix l cur tok cur'
  assume "l \<in> set lexers" "pointer cur < length source" "l source cur = Ret (tok, cur', True)"
  with lexers_step[of cur source l] have "step_post source cur tok cur'"
    by (blast intro: scanner_postD)
  then show "pointer cur < pointer cur'" "pointer cur' \<le> length source"
    by (simp_all add: step_post_def)
next
  fix cur tok cur'
  assume "pointer cur < length source" "try_lexers lexers source cur = Ret (Some (tok, cur'))"
  with driver_step[of cur source] have "step_post source cur tok cur'" by simp
  then show "pointer cur < pointer cur'" "pointer cur' \<le> length source"
    by (simp_all add: step_post_def)
next
  fix cur tokens
  show "\<exists>r. lex_loop source cur tokens = Some r"
    using lex_loop_returns[of source cur tokens] by blast
next
  show "\<exists>r. lex source = Some r"
    unfolding lex_def using lex_loop_returns[of source cursor0 "[]"] by blast
qed

theorem lex_progress_witness:
  "lexSymbol \<in> set lexers
   \<and> pointer \<lparr>pointer = 1, loc = \<lparr>Line = 0, Col = 1\<rparr>\<rparr> < length ''a b''
   \<and> lexSymbol ''a b'' \<lparr>pointer = 1, loc = \<lparr>Line = 0, Col = 1\<rparr>\<rparr> =
       Ret (None, \<lparr>pointer = 2, loc = \<lparr>Line = 0, Col = 2\<rparr>\<rparr>, True)
   \<and> pointer \<lparr>pointer = 1, loc = \<lparr>Line = 0, Col = 1\<rparr>\<rparr>
       < pointer \<lparr>pointer = 2, loc = \<lparr>Line = 0, Col = 2\<rparr>\<rparr>
   \<and> (\<exists>r. lex ''a b'' = Some r)"
proof -
  have 1: "lexSymbol \<in> set lexers" by (simp add: lexers_def)
  have 2: "pointer \<lparr>pointer = 1, loc = \<lparr>Line = 0, Col = 1\<rparr>\<rparr> < length ''a b''" by simp
  have 3: "lexSymbol ''a b'' \<lparr>pointer = 1, loc = \<lparr>Line = 0, Col = 1\<rparr>\<rparr> =
       Ret (None, \<lparr>pointer = 2, loc = \<lparr>Line = 0, Col = 2\<rparr>\<rparr>, True)" by code_simp
  from lex_progress[of "''a b''"] 1 2 3 show ?thesis by blast
qed

text \<open>
  C10.  At a cursor inside the source no scanner panics: every index and slice
  expression is in range.  \<open>longestMatch\<close> does not panic for the keywords, for the
  symbols, nor for any list of options without the empty string: an option is in the skip
  list before the buffer can grow longer than it, so \<open>option[:cur.pointer-ic.pointer]\<close>
  stays within the option.  Neither the driver's round over the scanners nor \<open>lex\<close> panics.
\<close>

theorem scanners_in_bounds:
  assumes "pointer ic < length source"
  shows "(\<forall>l\<in>set lexers. l source ic \<noteq> Panic)
       \<and> longestMatch source ic keywords_list \<noteq> Panic
       \<and> longestMatch source ic symbols \<noteq> Panic
       \<and> ([] \<notin> set options \<longrightarrow> longestMatch source ic options \<noteq> Panic)
       \<and> lexCharacterDelimited source ic delimiter \<noteq> Panic
       \<and> try_lexers lexers source ic \<noteq> Panic
       \<and> lex source \<noteq> Some Panic"
proof (intro conjI ballI impI)
  fix l assume "l \<in> set lexers"
  from lexers_step[OF assms this] show "l source ic \<noteq> Panic"
    by (auto simp: scanner_post_def)
next
  show "longestMatch source ic keywords_list \<noteq> Panic"
    using longestMatch_post[of ic source keywords_list] assms keywords_plain(1)
    by (auto simp: match_post_def)
next
  show "longestMatch source ic symbols \<noteq> Panic"
    using longestMatch_post[of ic source symbols] assms symbols_plain(1)
    by (auto simp: match_post_def)
next
  assume "[] \<notin> set options"
  then show "longestMatch source ic options \<noteq> Panic"
    using longestMatch_post[of ic source options] assms
    by (auto simp: match_post_def)
next
  show "lexCharacterDelimited source ic delimiter \<noteq> Panic"
    using lexCharacterDelimited_post[of ic source delimiter] assms
    by (auto simp: delimited_post_def)
next
  show "try_lexers lexers source ic \<noteq> Panic"
    using driver_step[OF assms] by auto
next
  show "lex source \<noteq> Some Panic"
    unfolding lex_def using lex_loop_returns[of source cursor0 "[]"] by auto
qed

theorem scanners_in_bounds_witness:
  "pointer cursor0 < length ''select *''
   \<and> lexKeyword ''select *'' cursor0 \<noteq> Panic
   \<and> lexIdentifier ''select *'' cursor0 \<noteq> Panic
   \<and> longestMatch ''select *'' cursor0 keywords_list \<noteq> Panic
   \<and> try_lexers lexers ''select *'' cursor0 \<noteq> Panic
   \<and> lex ''select *'' \<noteq> Some Panic"
proof -
  have h: "pointer cursor0 < length ''select *''" by (simp add: cursor0_def)
  have "lexKeyword \<in> set lexers" "lexIdentifier \<in> set lexers" by (simp_all add: lexers_def)
  with scanners_in_bounds[OF h] h show ?thesis by blast
qed

end
